theory Spec2Isabelle
  imports Main
begin

section \<open>Python lists: indexing with wrap-around\<close>

text \<open>
  The exceptions the modelled code can raise.  \<open>IndexError\<close>: a list index outside
  \<open>[-len, len)\<close>; \<open>ZeroDivisionError\<close>: \<open>%\<close> by zero; \<open>TypeError\<close>: \<open>max\<close>/\<open>min\<close>
  applied to \<open>None\<close>.
\<close>

datatype error = IndexError | ZeroDivisionError | TypeError

text \<open>
  Python resolves the index \<open>i\<close> of a list of length \<open>n\<close>: \<open>0 \<le> i < n\<close> is the position
  \<open>i\<close>, \<open>-n \<le> i < 0\<close> is the position \<open>i + n\<close>, anything else raises (here \<open>None\<close>).
\<close>

definition py_index :: "nat \<Rightarrow> int \<Rightarrow> nat option" where
  "py_index n i =
     (if 0 \<le> i \<and> i < int n then Some (nat i)
      else if - int n \<le> i \<and> i < 0 then Some (nat (i + int n))
      else None)"

definition getitem :: "'a list \<Rightarrow> int \<Rightarrow> 'a option" where
  "getitem xs i = (case py_index (length xs) i of None \<Rightarrow> None | Some j \<Rightarrow> Some (xs ! j))"

definition setitem :: "'a list \<Rightarrow> int \<Rightarrow> 'a \<Rightarrow> 'a list option" where
  "setitem xs i v = (case py_index (length xs) i of None \<Rightarrow> None | Some j \<Rightarrow> Some (xs[j := v]))"

text \<open>\<open>grid[x][y] = v\<close>: the row is fetched first, then the cell is stored.\<close>

definition set_cell :: "int list list \<Rightarrow> int \<Rightarrow> int \<Rightarrow> int \<Rightarrow> int list list option" where
  "set_cell g x y v =
     (case py_index (length g) x of
        None \<Rightarrow> None
      | Some i \<Rightarrow> (case setitem (g ! i) y v of
                     None \<Rightarrow> None
                   | Some r \<Rightarrow> Some (g[i := r])))"

section \<open>The board (board.py)\<close>

definition EMPTY :: int where
  "EMPTY = - 1"

record Board =
  board :: "int list list"
  rows :: int
  columns :: int

text \<open>
  \<open>Board.__init__\<close> builds \<open>rows\<close> lists of \<open>columns\<close> cells each, and no operation changes
  that shape.  Reads \<open>self.board[r][c]\<close> that the source guards with a bounds test against
  \<open>rows\<close> and \<open>columns\<close> are modelled by \<open>cell\<close>, which is the Python read on such a grid.
\<close>

definition wf_board :: "Board \<Rightarrow> bool" where
  "wf_board b \<longleftrightarrow>
     rows b = int (length (board b)) \<and> (\<forall>r \<in> set (board b). columns b = int (length r))"

definition cell :: "Board \<Rightarrow> int \<Rightarrow> int \<Rightarrow> int" where
  "cell b r c = board b ! nat r ! nat c"

text \<open>A run of cell assignments \<open>self.board[x][y] = player\<close>; it stops at the first exception.\<close>

fun assign_cells :: "int list list \<Rightarrow> (int \<times> int) list \<Rightarrow> int \<Rightarrow> int list list \<times> error option" where
  "assign_cells g [] player = (g, None)"
| "assign_cells g ((x, y) # rest) player =
     (case set_cell g x y player of
        None \<Rightarrow> (g, Some IndexError)
      | Some g' \<Rightarrow> assign_cells g' rest player)"

text \<open>\<open>Board()\<close>: the class attributes \<open>rows = 9\<close>, \<open>columns = 9\<close> and an empty grid.\<close>

definition new_board :: Board where
  "new_board = \<lparr>board = replicate 9 (replicate 9 EMPTY), rows = 9, columns = 9\<rparr>"

text \<open>\<open>setup_three_players\<close>: three chained assignments, one per player.\<close>

definition setup_three_players :: "Board \<Rightarrow> Board \<times> error option" where
  "setup_three_players b =
     (case assign_cells (board b) [(4, 4), (3, 5), (3, 3)] 0 of
        (g0, Some e) \<Rightarrow> (b\<lparr>board := g0\<rparr>, Some e)
      | (g0, None) \<Rightarrow>
     (case assign_cells g0 [(5, 5), (5, 3), (3, 4)] 1 of
        (g1, Some e) \<Rightarrow> (b\<lparr>board := g1\<rparr>, Some e)
      | (g1, None) \<Rightarrow>
     (case assign_cells g1 [(5, 4), (4, 5), (4, 3)] 2 of
        (g2, r) \<Rightarrow> (b\<lparr>board := g2\<rparr>, r))))"

subsection \<open>would_flip\<close>

text \<open>
  The \<open>while\<close> loop of \<open>would_flip\<close> for one direction \<open>(dy, dx)\<close>, started at
  \<open>(new_row, new_col)\<close> with the discs met so far in \<open>visited_discs\<close>; its value is what the
  ray adds to \<open>flips\<close>.  The source never enters the loop with \<open>dy = dx = 0\<close>
  (the \<open>continue\<close> of line 147); the model gives that step no cells, which makes the
  recursion total.
\<close>

function walk :: "Board \<Rightarrow> int \<Rightarrow> int \<Rightarrow> int \<Rightarrow> int \<Rightarrow> int \<Rightarrow> (int \<times> int) list \<Rightarrow> (int \<times> int) list" where
  "walk b player dy dx new_row new_col visited_discs =
     (if new_row < 0 \<or> new_row \<ge> rows b \<or> new_col < 0 \<or> new_col \<ge> columns b
         \<or> (dy = 0 \<and> dx = 0) then []
      else if cell b new_row new_col = player then visited_discs
      else if cell b new_row new_col = EMPTY then []
      else walk b player dy dx (new_row + dy) (new_col + dx) (visited_discs @ [(new_row, new_col)]))"
  by pat_completeness auto
termination
  by (relation "measure (\<lambda>(b, player, dy, dx, r, c, v).
        nat (if 0 < dy then rows b - r else if dy < 0 then r + 1
             else if 0 < dx then columns b - c else c + 1))") auto

declare walk.simps [simp del]

definition would_flip :: "Board \<Rightarrow> int \<Rightarrow> int \<Rightarrow> int \<Rightarrow> (int \<times> int) list" where
  "would_flip b row column player =
     fold (\<lambda>(dy, dx) flips.
             if dy = 0 \<and> dx = 0 then flips
             else flips @ walk b player dy dx (row + dy) (column + dx) [])
          (List.product [- 1, 0, 1] [- 1, 0, 1]) []"

subsection \<open>validate_placing\<close>

text \<open>
  The nested adjacency loop with its two \<open>break\<close>s: \<open>is_adjacent\<close> ends up true exactly
  when some scanned cell passes the three tests.
\<close>

definition is_adjacent :: "Board \<Rightarrow> int \<Rightarrow> int \<Rightarrow> bool" where
  "is_adjacent b row column =
     list_ex (\<lambda>y. list_ex (\<lambda>x.
         \<not> (y < 0 \<or> y \<ge> rows b \<or> x < 0 \<or> x \<ge> columns b)
         \<and> \<not> (row = y \<and> column = x)
         \<and> cell b y x \<noteq> EMPTY) [column - 1, column, column + 1]) [row - 1, row, row + 1]"

definition validate_placing :: "Board \<Rightarrow> int \<Rightarrow> int \<Rightarrow> int \<Rightarrow> bool \<times> string" where
  "validate_placing b row column player =
     (if row < 0 \<or> row \<ge> rows b \<or> column < 0 \<or> column \<ge> columns b
        then (False, ''Placement out of bounds.'')
      else if cell b row column \<noteq> EMPTY
        then (False, ''Square taken.'')
      else if \<not> is_adjacent b row column
        then (False, ''New disc must be adjacent to some existing one.'')
      else if would_flip b row column player = []
        then (False, ''Move won't flip any disks.'')
      else (True, ''''))"

subsection \<open>place\<close>

text \<open>
  \<open>place\<close> calls \<open>validate_placing\<close> and drops its result, flips the discs of \<open>would_flip\<close>
  and stores the new disc.  The value is the board after the call and the exception raised,
  if any.
\<close>

definition place :: "Board \<Rightarrow> int \<Rightarrow> int \<Rightarrow> int \<Rightarrow> Board \<times> error option" where
  "place b row column player =
     (let verdict = validate_placing b row column player;
          to_flip = would_flip b row column player
      in case assign_cells (board b) to_flip player of
           (g, Some e) \<Rightarrow> (b\<lparr>board := g\<rparr>, Some e)
         | (g, None) \<Rightarrow>
             (case set_cell g row column player of
                None \<Rightarrow> (b\<lparr>board := g\<rparr>, Some IndexError)
              | Some g' \<Rightarrow> (b\<lparr>board := g'\<rparr>, None)))"

subsection \<open>has_valid_move, valid_moves\<close>

definition has_valid_move :: "Board \<Rightarrow> int \<Rightarrow> bool" where
  "has_valid_move b player =
     list_ex (\<lambda>row. list_ex (\<lambda>column. fst (validate_placing b row column player))
                [0 .. columns b - 1]) [0 .. rows b - 1]"

definition valid_moves :: "Board \<Rightarrow> int \<Rightarrow> (int \<times> int) list" where
  "valid_moves b player =
     fold (\<lambda>row moves.
        fold (\<lambda>column moves.
                if fst (validate_placing b row column player) then moves @ [(row, column)]
                else moves)
             [0 .. columns b - 1] moves)
        [0 .. rows b - 1] []"

subsection \<open>get_winner\<close>

text \<open>\<open>scores[cell] += 1\<close> for every cell in turn: a read and a write at the index \<open>cell\<close>.\<close>

fun tally :: "int list \<Rightarrow> int list \<Rightarrow> int list option" where
  "tally scores [] = Some scores"
| "tally scores (c # cs) =
     (case getitem scores c of
        None \<Rightarrow> None
      | Some s \<Rightarrow> (case setitem scores c (s + 1) of
                     None \<Rightarrow> None
                   | Some scores' \<Rightarrow> tally scores' cs))"

text \<open>\<open>max(scores)\<close> and \<open>scores.index(v)\<close> on a non-empty list that holds \<open>v\<close>.\<close>

fun list_max :: "int list \<Rightarrow> int" where
  "list_max [] = 0"
| "list_max (x # xs) = fold max xs x"

fun index_of :: "int list \<Rightarrow> int \<Rightarrow> int" where
  "index_of [] v = 0"
| "index_of (x # xs) v = (if x = v then 0 else 1 + index_of xs v)"

definition get_winner :: "Board \<Rightarrow> error + int option" where
  "get_winner b =
     (case tally [0, 0, 0] (concat (board b)) of
        None \<Rightarrow> Inl IndexError
      | Some scores \<Rightarrow>
          (let max_score = list_max scores
           in if length (filter (\<lambda>x. x = max_score) scores) > 1 then Inr None
              else Inr (Some (index_of scores max_score))))"

section \<open>The search (minimax.py)\<close>

text \<open>
  One step of the running extremum:
  \<open>max_eval = evaluation if max_eval is None else f(max_eval, evaluation)\<close>, where \<open>f\<close> is
  \<open>max\<close> when the mover is the maximizing player and \<open>min\<close> otherwise.  Python's \<open>None\<close> is
  \<open>None\<close> here; \<open>max\<close> or \<open>min\<close> of a number and \<open>None\<close> raises.
\<close>

definition update_eval :: "bool \<Rightarrow> int option \<Rightarrow> int option \<Rightarrow> error + int option" where
  "update_eval maximizing max_eval evaluation =
     (case max_eval of
        None \<Rightarrow> Inr evaluation
      | Some m \<Rightarrow> (case evaluation of
                     None \<Rightarrow> Inl TypeError
                   | Some e \<Rightarrow> Inr (Some (if maximizing then max m e else min m e))))"

text \<open>
  \<open>minimax\<close> mutates the board it is given, so the model returns the value together with the
  board as the call leaves it.  The heuristic is a function of the board and a player.
  \<open>depth\<close> is a Python integer, and nothing in the source stops the recursion when it is
  negative, so the model carries fuel: the first argument bounds the nesting of \<open>minimax\<close>
  calls, and \<open>None\<close> means the bound was hit.  \<open>explore\<close> is the \<open>for\<close> loop over
  \<open>valid_moves\<close>, with the moves still to try and \<open>max_eval\<close> so far.
\<close>

fun minimax :: "nat \<Rightarrow> Board \<Rightarrow> int \<Rightarrow> int \<Rightarrow> int \<Rightarrow> int \<Rightarrow> int \<Rightarrow> (Board \<Rightarrow> int \<Rightarrow> int)
                  \<Rightarrow> (error + int option \<times> Board) option"
  and explore :: "nat \<Rightarrow> Board \<Rightarrow> int \<Rightarrow> int \<Rightarrow> int \<Rightarrow> int \<Rightarrow> int \<Rightarrow> (Board \<Rightarrow> int \<Rightarrow> int)
                  \<Rightarrow> (int \<times> int) list \<Rightarrow> int option \<Rightarrow> (error + int option \<times> Board) option"
where
  "minimax 0 b depth maximizing_player current_player num_players turns_passed heuristic = None"
| "minimax (Suc fuel) b depth maximizing_player current_player num_players turns_passed heuristic =
     (if depth = 0 \<or> turns_passed = num_players
        then Some (Inr (Some (heuristic b current_player), b))
      else
        let moves = valid_moves b current_player
        in if num_players = 0 then Some (Inl ZeroDivisionError)
           else
             let next_player = (current_player + 1) mod num_players
             in if moves = []
                  then (case minimax fuel b (depth - 1) maximizing_player next_player
                               num_players (turns_passed + 1) heuristic of
                          None \<Rightarrow> None
                        | Some (Inl e) \<Rightarrow> Some (Inl e)
                        | Some (Inr (v, copy)) \<Rightarrow> Some (Inr (v, b)))
                else explore fuel b depth maximizing_player current_player next_player
                       num_players heuristic moves None)"
| "explore fuel b depth maximizing_player current_player next_player num_players heuristic
     [] max_eval = Some (Inr (max_eval, b))"
| "explore fuel b depth maximizing_player current_player next_player num_players heuristic
     ((move_row, move_col) # rest) max_eval =
     (case place b move_row move_col current_player of
        (b1, Some e) \<Rightarrow> Some (Inl e)
      | (b1, None) \<Rightarrow>
          (case minimax fuel b1 (depth - 1) maximizing_player next_player num_players 0
                  heuristic of
             None \<Rightarrow> None
           | Some (Inl e) \<Rightarrow> Some (Inl e)
           | Some (Inr (evaluation, b2)) \<Rightarrow>
               (case set_cell (board b2) move_row move_col EMPTY of
                  None \<Rightarrow> Some (Inl IndexError)
                | Some g \<Rightarrow>
                    (case update_eval (current_player = maximizing_player) max_eval evaluation of
                       Inl e \<Rightarrow> Some (Inl e)
                     | Inr max_eval' \<Rightarrow>
                         explore fuel (b2\<lparr>board := g\<rparr>) depth maximizing_player current_player
                           next_player num_players heuristic rest max_eval'))))"

text \<open>
  The outcome, for the caller, of a call made on \<open>deepcopy(board)\<close>: the same value or
  exception, and the caller's board \<open>b\<close> as it was.
\<close>

definition on_copy :: "Board \<Rightarrow> (error + int option \<times> Board) option \<Rightarrow> (error + int option \<times> Board) option" where
  "on_copy b outcome =
     (case outcome of
        None \<Rightarrow> None
      | Some (Inl e) \<Rightarrow> Some (Inl e)
      | Some (Inr (v, copy)) \<Rightarrow> Some (Inr (v, b)))"

text \<open>A sample heuristic: the number of discs the player owns.\<close>

definition disc_count :: "Board \<Rightarrow> int \<Rightarrow> int" where
  "disc_count b player = int (length (filter (\<lambda>c. c = player) (concat (board b))))"

section \<open>The rules in the specification's words\<close>

definition in_bounds :: "Board \<Rightarrow> int \<Rightarrow> int \<Rightarrow> bool" where
  "in_bounds b r c \<longleftrightarrow> 0 \<le> r \<and> r < rows b \<and> 0 \<le> c \<and> c < columns b"

text \<open>The eight compass directions, as (row step, column step).\<close>

definition compass :: "(int \<times> int) list" where
  "compass = [(- 1, - 1), (- 1, 0), (- 1, 1), (0, - 1), (0, 1), (1, - 1), (1, 0), (1, 1)]"

text \<open>A cell owned by a player other than \<open>player\<close>: occupied, and not by \<open>player\<close>.\<close>

definition owned_by_other :: "Board \<Rightarrow> int \<Rightarrow> int \<Rightarrow> int \<Rightarrow> bool" where
  "owned_by_other b player r c \<longleftrightarrow> cell b r c \<noteq> EMPTY \<and> cell b r c \<noteq> player"

text \<open>
  A run of \<open>n\<close> discs flanked by \<open>player\<close> along the direction \<open>d\<close>: walking outward from
  the target, the cells at distance \<open>1, \<dots>, n\<close> are on the grid and owned by other players,
  and the cell at distance \<open>n + 1\<close> is on the grid and owned by \<open>player\<close>.
\<close>

definition flanked :: "Board \<Rightarrow> int \<Rightarrow> int \<Rightarrow> int \<Rightarrow> int \<times> int \<Rightarrow> nat \<Rightarrow> bool" where
  "flanked b row column player d n \<longleftrightarrow>
     (case d of (dy, dx) \<Rightarrow>
        (\<forall>j. 1 \<le> j \<and> j \<le> n \<longrightarrow>
               in_bounds b (row + int j * dy) (column + int j * dx)
               \<and> owned_by_other b player (row + int j * dy) (column + int j * dx))
        \<and> in_bounds b (row + int (n + 1) * dy) (column + int (n + 1) * dx)
        \<and> cell b (row + int (n + 1) * dy) (column + int (n + 1) * dx) = player)"

text \<open>
  The captures of one ray: the cells of the flanked run.  When the run of other players'
  cells ends at an empty cell or at the border nothing is flanked, and the ray captures
  nothing.
\<close>

definition ray_captures :: "Board \<Rightarrow> int \<Rightarrow> int \<Rightarrow> int \<Rightarrow> int \<times> int \<Rightarrow> (int \<times> int) set" where
  "ray_captures b row column player d =
     (case d of (dy, dx) \<Rightarrow>
        {(row + int k * dy, column + int k * dx) | k n.
           1 \<le> k \<and> k \<le> n \<and> flanked b row column player d n})"

definition captures_spec :: "Board \<Rightarrow> int \<Rightarrow> int \<Rightarrow> int \<Rightarrow> (int \<times> int) set" where
  "captures_spec b row column player = (\<Union>d \<in> set compass. ray_captures b row column player d)"

text \<open>The target has a neighbour, in one of the eight directions and on the grid, that is occupied.\<close>

definition adjacent_spec :: "Board \<Rightarrow> int \<Rightarrow> int \<Rightarrow> bool" where
  "adjacent_spec b row column \<longleftrightarrow>
     (\<exists>(dy, dx) \<in> set compass.
        in_bounds b (row + dy) (column + dx) \<and> cell b (row + dy) (column + dx) \<noteq> EMPTY)"

text \<open>The four conditions of a legal move.\<close>

definition is_legal_spec :: "Board \<Rightarrow> int \<Rightarrow> int \<Rightarrow> int \<Rightarrow> bool" where
  "is_legal_spec b row column player \<longleftrightarrow>
     in_bounds b row column \<and> cell b row column = EMPTY \<and> adjacent_spec b row column
     \<and> would_flip b row column player \<noteq> []"

text \<open>Row-major order on cells: by row, then by column.\<close>

definition row_major_less :: "int \<times> int \<Rightarrow> int \<times> int \<Rightarrow> bool" where
  "row_major_less p q \<longleftrightarrow> fst p < fst q \<or> (fst p = fst q \<and> snd p < snd q)"

section \<open>Sample positions\<close>

text \<open>The starting position of a three-player game, and the position after player 0 opens at (2, 4).\<close>

definition initial_board :: Board where
  "initial_board = fst (setup_three_players new_board)"

definition after_first_move :: Board where
  "after_first_move = fst (place initial_board 2 4 0)"

text \<open>Two 9 x 9 positions with 10, 10, 5 and with 12, 5, 5 discs for players 0, 1, 2.\<close>

definition tie_board :: Board where
  "tie_board = \<lparr>board =
     [[0, 0, 0, 0, 0, 0, 0, 0, 0],
      [0, 1, 1, 1, 1, 1, 1, 1, 1],
      [1, 1, 2, 2, 2, 2, 2, - 1, - 1],
      [- 1, - 1, - 1, - 1, - 1, - 1, - 1, - 1, - 1],
      [- 1, - 1, - 1, - 1, - 1, - 1, - 1, - 1, - 1],
      [- 1, - 1, - 1, - 1, - 1, - 1, - 1, - 1, - 1],
      [- 1, - 1, - 1, - 1, - 1, - 1, - 1, - 1, - 1],
      [- 1, - 1, - 1, - 1, - 1, - 1, - 1, - 1, - 1],
      [- 1, - 1, - 1, - 1, - 1, - 1, - 1, - 1, - 1]], rows = 9, columns = 9\<rparr>"

definition lead_board :: Board where
  "lead_board = \<lparr>board =
     [[0, 0, 0, 0, 0, 0, 0, 0, 0],
      [0, 0, 0, 1, 1, 1, 1, 1, 2],
      [2, 2, 2, 2, - 1, - 1, - 1, - 1, - 1],
      [- 1, - 1, - 1, - 1, - 1, - 1, - 1, - 1, - 1],
      [- 1, - 1, - 1, - 1, - 1, - 1, - 1, - 1, - 1],
      [- 1, - 1, - 1, - 1, - 1, - 1, - 1, - 1, - 1],
      [- 1, - 1, - 1, - 1, - 1, - 1, - 1, - 1, - 1],
      [- 1, - 1, - 1, - 1, - 1, - 1, - 1, - 1, - 1],
      [- 1, - 1, - 1, - 1, - 1, - 1, - 1, - 1, - 1]], rows = 9, columns = 9\<rparr>"

text \<open>
  A position where player 0 (3 discs) cannot move while player 1 (1 disc) and player 2
  (3 discs) can, and a position where no player can move (3, 2 and 1 discs).
\<close>

definition pass_board :: Board where
  "pass_board = \<lparr>board =
     [[0, 0, 0, - 1, - 1, - 1, - 1, - 1, - 1],
      [- 1, - 1, - 1, - 1, - 1, - 1, - 1, - 1, - 1],
      [- 1, - 1, - 1, - 1, - 1, - 1, - 1, - 1, - 1],
      [- 1, - 1, - 1, - 1, - 1, - 1, - 1, - 1, - 1],
      [- 1, - 1, - 1, 1, 2, - 1, - 1, - 1, - 1],
      [- 1, - 1, - 1, - 1, - 1, - 1, - 1, - 1, - 1],
      [- 1, - 1, - 1, - 1, - 1, - 1, - 1, - 1, - 1],
      [- 1, - 1, - 1, - 1, - 1, - 1, - 1, - 1, - 1],
      [- 1, - 1, - 1, - 1, - 1, - 1, - 1, 2, 2]], rows = 9, columns = 9\<rparr>"

definition stuck_board :: Board where
  "stuck_board = \<lparr>board =
     [[0, 0, 0, - 1, - 1, - 1, - 1, - 1, - 1],
      [- 1, - 1, - 1, - 1, - 1, - 1, - 1, - 1, - 1],
      [- 1, - 1, - 1, - 1, - 1, - 1, - 1, - 1, - 1],
      [- 1, - 1, - 1, - 1, - 1, - 1, - 1, - 1, - 1],
      [- 1, - 1, - 1, - 1, 2, - 1, - 1, - 1, - 1],
      [- 1, - 1, - 1, - 1, - 1, - 1, - 1, - 1, - 1],
      [- 1, - 1, - 1, - 1, - 1, - 1, - 1, - 1, - 1],
      [- 1, - 1, - 1, - 1, - 1, - 1, - 1, - 1, - 1],
      [- 1, - 1, - 1, - 1, - 1, - 1, - 1, 1, 1]], rows = 9, columns = 9\<rparr>"

section \<open>The base case of the search\<close>

lemma minimax_base:
  "depth = 0 \<or> turns_passed = num_players \<Longrightarrow>
   minimax (Suc fuel) b depth maximizing_player current_player num_players turns_passed heuristic
     = Some (Inr (Some (heuristic b current_player), b))"
  by simp

text \<open>
  C1.  At the base case the search should return the heuristic of the board for the maximizing
  player.  The code passes \<open>current_player\<close> to the heuristic instead: with depth 0, maximizing
  player 0 and player 1 to move on the position after the first move, the search returns 2,
  the disc count of player 1, while the disc count of player 0, the maximizing player, is 5.
\<close>

theorem minimax_base_case_scores_current_player:
  "minimax 1 after_first_move 0 0 1 3 0 disc_count = Some (Inr (Some 2, after_first_move))
   \<and> disc_count after_first_move 1 = 2
   \<and> disc_count after_first_move 0 = 5"
  by code_simp

section \<open>Terminal scoring\<close>

text \<open>
  C2.  \<open>get_winner\<close> should count occupied cells only and call a draw when the top count is
  shared.  The code indexes \<open>scores\<close> with the cell value, and the empty marker \<open>-1\<close> is the
  last entry of the list in Python: every empty cell is counted for player 2.  With 10, 10
  and 5 discs player 2 wins instead of a draw, with 12, 5 and 5 discs player 2 wins instead
  of player 0, and on the starting position (3 discs each) player 2 wins instead of a draw.
\<close>

theorem get_winner_counts_empty_cells_for_last_player:
  "disc_count tie_board 0 = 10 \<and> disc_count tie_board 1 = 10 \<and> disc_count tie_board 2 = 5
   \<and> get_winner tie_board = Inr (Some 2)
   \<and> disc_count lead_board 0 = 12 \<and> disc_count lead_board 1 = 5 \<and> disc_count lead_board 2 = 5
   \<and> get_winner lead_board = Inr (Some 2)
   \<and> get_winner initial_board = Inr (Some 2)"
  by code_simp

section \<open>The search leaves flipped discs behind\<close>

text \<open>
  C3.  A search call should leave the grid as it found it.  The undo of the code resets the
  placed cell only; the discs flipped by the simulated placement stay flipped.  After a
  search of depth 1 for player 0 on the starting position the cell (3, 4), owned by player 1
  before, is owned by player 0, and so is every other disc on the board.
\<close>

theorem minimax_leaves_flipped_discs:
  "cell initial_board 3 4 = 1
   \<and> minimax 2 initial_board 1 0 0 3 0 disc_count =
       Some (Inr (Some 2, \<lparr>board =
         [[- 1, - 1, - 1, - 1, - 1, - 1, - 1, - 1, - 1],
          [- 1, - 1, - 1, - 1, - 1, - 1, - 1, - 1, - 1],
          [- 1, - 1, - 1, - 1, - 1, - 1, - 1, - 1, - 1],
          [- 1, - 1, - 1, 0, 0, 0, - 1, - 1, - 1],
          [- 1, - 1, - 1, 0, 0, 0, - 1, - 1, - 1],
          [- 1, - 1, - 1, 0, 0, 0, - 1, - 1, - 1],
          [- 1, - 1, - 1, - 1, - 1, - 1, - 1, - 1, - 1],
          [- 1, - 1, - 1, - 1, - 1, - 1, - 1, - 1, - 1],
          [- 1, - 1, - 1, - 1, - 1, - 1, - 1, - 1, - 1]], rows = 9, columns = 9\<rparr>))"
  by code_simp

section \<open>Placement\<close>

text \<open>
  C4.  \<open>place\<close> should reject an illegal move and leave the grid alone.  The code calls the
  legality check and ignores the verdict: on the starting position the corner (0, 0) has no
  neighbouring disc, the check says so, and \<open>place\<close> still returns normally with player 0 on
  the corner.
\<close>

theorem place_applies_illegal_move:
  "validate_placing initial_board 0 0 0 = (False, ''New disc must be adjacent to some existing one.'')
   \<and> cell initial_board 0 0 = EMPTY
   \<and> snd (place initial_board 0 0 0) = None
   \<and> cell (fst (place initial_board 0 0 0)) 0 0 = 0"
  by code_simp

section \<open>The capture algorithm\<close>

subsection \<open>Flanked runs\<close>

text \<open>For the eight directions of \<open>would_flip\<close> the loop is the source's loop, test for test.\<close>

lemma walk_unguarded:
  "dy \<noteq> 0 \<or> dx \<noteq> 0 \<Longrightarrow>
   walk b player dy dx new_row new_col visited_discs =
     (if new_row < 0 \<or> new_row \<ge> rows b \<or> new_col < 0 \<or> new_col \<ge> columns b then []
      else if cell b new_row new_col = player then visited_discs
      else if cell b new_row new_col = EMPTY then []
      else walk b player dy dx (new_row + dy) (new_col + dx) (visited_discs @ [(new_row, new_col)]))"
  by (subst walk.simps) auto

lemma flanked_0:
  "flanked b row column player (dy, dx) 0 \<longleftrightarrow>
     in_bounds b (row + dy) (column + dx) \<and> cell b (row + dy) (column + dx) = player"
  by (simp add: flanked_def)

lemma shift: "r + dy + int j * dy = r + int (Suc j) * dy"
  by (simp add: algebra_simps)

lemma flanked_Suc:
  "flanked b row column player (dy, dx) (Suc n) \<longleftrightarrow>
     in_bounds b (row + dy) (column + dx) \<and> owned_by_other b player (row + dy) (column + dx)
     \<and> flanked b (row + dy) (column + dx) player (dy, dx) n"
proof
  assume f: "flanked b row column player (dy, dx) (Suc n)"
  then have one: "in_bounds b (row + int 1 * dy) (column + int 1 * dx)
      \<and> owned_by_other b player (row + int 1 * dy) (column + int 1 * dx)"
    unfolding flanked_def by (simp del: of_nat_Suc)
  have "flanked b (row + dy) (column + dx) player (dy, dx) n"
    unfolding flanked_def prod.case shift
  proof (intro conjI allI impI)
    fix j assume "1 \<le> j \<and> j \<le> n"
    then have "1 \<le> Suc j \<and> Suc j \<le> Suc n" by simp
    with f show "in_bounds b (row + int (Suc j) * dy) (column + int (Suc j) * dx)"
      and "owned_by_other b player (row + int (Suc j) * dy) (column + int (Suc j) * dx)"
      unfolding flanked_def prod.case by blast+
  next
    from f show "in_bounds b (row + int (Suc (n + 1)) * dy) (column + int (Suc (n + 1)) * dx)"
      and "cell b (row + int (Suc (n + 1)) * dy) (column + int (Suc (n + 1)) * dx) = player"
      unfolding flanked_def prod.case by simp_all
  qed
  with one show "in_bounds b (row + dy) (column + dx) \<and> owned_by_other b player (row + dy) (column + dx)
     \<and> flanked b (row + dy) (column + dx) player (dy, dx) n" by simp
next
  assume a: "in_bounds b (row + dy) (column + dx) \<and> owned_by_other b player (row + dy) (column + dx)
     \<and> flanked b (row + dy) (column + dx) player (dy, dx) n"
  then have f: "flanked b (row + dy) (column + dx) player (dy, dx) n" by simp
  show "flanked b row column player (dy, dx) (Suc n)"
    unfolding flanked_def prod.case
  proof (intro conjI allI impI)
    fix j assume j: "1 \<le> j \<and> j \<le> Suc n"
    show "in_bounds b (row + int j * dy) (column + int j * dx)"
    proof (cases j)
      case 0 with j show ?thesis by simp
    next
      case (Suc k)
      show ?thesis
      proof (cases "k = 0")
        case True with Suc a show ?thesis by simp
      next
        case False
        with Suc j have "1 \<le> k \<and> k \<le> n" by simp
        with f have "in_bounds b (row + dy + int k * dy) (column + dx + int k * dx)"
          unfolding flanked_def prod.case by blast
        with Suc show ?thesis by (simp only: shift)
      qed
    qed
    show "owned_by_other b player (row + int j * dy) (column + int j * dx)"
    proof (cases j)
      case 0 with j show ?thesis by simp
    next
      case (Suc k)
      show ?thesis
      proof (cases "k = 0")
        case True with Suc a show ?thesis by simp
      next
        case False
        with Suc j have "1 \<le> k \<and> k \<le> n" by simp
        with f have "owned_by_other b player (row + dy + int k * dy) (column + dx + int k * dx)"
          unfolding flanked_def prod.case by blast
        with Suc show ?thesis by (simp only: shift)
      qed
    qed
  next
    from f have "in_bounds b (row + dy + int (n + 1) * dy) (column + dx + int (n + 1) * dx)"
      and "cell b (row + dy + int (n + 1) * dy) (column + dx + int (n + 1) * dx) = player"
      unfolding flanked_def prod.case by simp_all
    then show "in_bounds b (row + int (Suc n + 1) * dy) (column + int (Suc n + 1) * dx)"
      and "cell b (row + int (Suc n + 1) * dy) (column + int (Suc n + 1) * dx) = player"
      by (simp_all only: shift Suc_eq_plus1)
  qed
qed


lemma walk_hit:
  "dy \<noteq> 0 \<or> dx \<noteq> 0 \<Longrightarrow> flanked b row column player (dy, dx) n \<Longrightarrow>
   walk b player dy dx (row + dy) (column + dx) visited
     = visited @ map (\<lambda>k. (row + int k * dy, column + int k * dx)) [1 ..< Suc n]"
proof (induction n arbitrary: row column visited)
  case 0
  then show ?case
    by (subst walk.simps) (auto simp: flanked_0 in_bounds_def)
next
  case (Suc n)
  from Suc.prems(2) have inb: "in_bounds b (row + dy) (column + dx)"
    and oth: "owned_by_other b player (row + dy) (column + dx)"
    and rest: "flanked b (row + dy) (column + dx) player (dy, dx) n"
    by (simp_all add: flanked_Suc)
  have "walk b player dy dx (row + dy) (column + dx) visited
      = walk b player dy dx (row + dy + dy) (column + dx + dx) (visited @ [(row + dy, column + dx)])"
    using inb oth Suc.prems(1)
    by (subst walk.simps) (auto simp: in_bounds_def owned_by_other_def)
  also have "\<dots> = (visited @ [(row + dy, column + dx)])
      @ map (\<lambda>k. (row + dy + int k * dy, column + dx + int k * dx)) [1 ..< Suc n]"
    by (rule Suc.IH [OF Suc.prems(1) rest])
  also have "map (\<lambda>k. (row + dy + int k * dy, column + dx + int k * dx)) [1 ..< Suc n]
      = map (\<lambda>k. (row + int k * dy, column + int k * dx)) (map Suc [1 ..< Suc n])"
    by (simp only: map_map comp_def shift)
  also have "map Suc [1 ..< Suc n] = [2 ..< Suc (Suc n)]"
    by (simp only: map_Suc_upt) (simp add: numeral_2_eq_2)
  finally have "walk b player dy dx (row + dy) (column + dx) visited
      = visited @ (row + dy, column + dx)
          # map (\<lambda>k. (row + int k * dy, column + int k * dx)) [2 ..< Suc (Suc n)]"
    by simp
  moreover have "[1 ..< Suc (Suc n)] = 1 # [2 ..< Suc (Suc n)]"
    by (simp add: upt_conv_Cons numeral_2_eq_2 del: upt_Suc)
  ultimately show ?case
    by (simp del: upt_Suc)
qed

lemma walk_miss:
  "\<forall>n. \<not> flanked b (r - dy) (c - dx) player (dy, dx) n \<Longrightarrow> walk b player dy dx r c visited = []"
proof (induction b player dy dx r c visited rule: walk.induct)
  case (1 b player dy dx new_row new_col visited_discs)
  show ?case
  proof (cases "new_row < 0 \<or> new_row \<ge> rows b \<or> new_col < 0 \<or> new_col \<ge> columns b
         \<or> (dy = 0 \<and> dx = 0)")
    case True
    then show ?thesis by (subst walk.simps) simp
  next
    case False
    then have inb: "in_bounds b new_row new_col" by (auto simp: in_bounds_def)
    from "1.prems" have "\<not> flanked b (new_row - dy) (new_col - dx) player (dy, dx) 0" by blast
    with inb have np: "cell b new_row new_col \<noteq> player" by (simp add: flanked_0)
    show ?thesis
    proof (cases "cell b new_row new_col = EMPTY")
      case True
      with False np show ?thesis by (subst walk.simps) simp
    next
      case ne: False
      with np have oth: "owned_by_other b player new_row new_col" by (simp add: owned_by_other_def)
      have "\<forall>n. \<not> flanked b (new_row + dy - dy) (new_col + dx - dx) player (dy, dx) n"
      proof (intro allI notI)
        fix n assume "flanked b (new_row + dy - dy) (new_col + dx - dx) player (dy, dx) n"
        with inb oth have "flanked b (new_row - dy) (new_col - dx) player (dy, dx) (Suc n)"
          by (simp add: flanked_Suc)
        with "1.prems" show False by blast
      qed
      from "1.IH" [OF False np ne this] False np ne show ?thesis
        by (subst walk.simps) simp
    qed
  qed
qed

lemma flanked_unique:
  assumes "flanked b row column player d n" "flanked b row column player d m"
  shows "n = m"
proof -
  have less: False if "flanked b row column player d i" "flanked b row column player d j" "i < j"
    for i j
  proof -
    obtain dy dx where d: "d = (dy, dx)" by (cases d)
    from that(1) d have "cell b (row + int (i + 1) * dy) (column + int (i + 1) * dx) = player"
      by (simp add: flanked_def)
    moreover from that(2,3) d
    have "owned_by_other b player (row + int (i + 1) * dy) (column + int (i + 1) * dx)"
      unfolding flanked_def by (auto simp del: of_nat_Suc of_nat_add)
    ultimately show False by (simp add: owned_by_other_def)
  qed
  show ?thesis
    using less [OF assms] less [OF assms(2,1)] by (cases n m rule: linorder_cases) auto
qed

lemma set_walk_ray:
  assumes "dy \<noteq> 0 \<or> dx \<noteq> 0"
  shows "set (walk b player dy dx (row + dy) (column + dx) []) = ray_captures b row column player (dy, dx)"
proof (cases "\<exists>n. flanked b row column player (dy, dx) n")
  case True
  then obtain n where n: "flanked b row column player (dy, dx) n" ..
  have "ray_captures b row column player (dy, dx)
      = {(row + int k * dy, column + int k * dx) | k. 1 \<le> k \<and> k \<le> n}"
    unfolding ray_captures_def prod.case
    using n flanked_unique [OF n] by blast
  also have "\<dots> = set (map (\<lambda>k. (row + int k * dy, column + int k * dx)) [1 ..< Suc n])"
    by (auto simp del: upt_Suc)
  finally show ?thesis using walk_hit [OF assms n, of "[]"] by simp
next
  case False
  then have "ray_captures b row column player (dy, dx) = {}"
    by (simp add: ray_captures_def)
  moreover from False have "walk b player dy dx (row + dy) (column + dx) [] = []"
    by (intro walk_miss) simp
  ultimately show ?thesis by simp
qed

lemma would_flip_rays:
  "would_flip b row column player =
     concat (map (\<lambda>(dy, dx). walk b player dy dx (row + dy) (column + dx) []) compass)"
  by (simp add: would_flip_def compass_def)

lemma set_would_flip:
  "set (would_flip b row column player) = (\<Union>d \<in> set compass. ray_captures b row column player d)"
proof -
  have "set (would_flip b row column player)
      = (\<Union>d \<in> set compass. set (case d of (dy, dx) \<Rightarrow> walk b player dy dx (row + dy) (column + dx) []))"
    by (simp add: would_flip_rays)
  also have "\<dots> = (\<Union>d \<in> set compass. ray_captures b row column player d)"
  proof (intro SUP_cong refl)
    fix d assume "d \<in> set compass"
    then obtain dy dx where d: "d = (dy, dx)" and nz: "dy \<noteq> 0 \<or> dx \<noteq> 0"
      by (auto simp: compass_def)
    show "set (case d of (dy, dx) \<Rightarrow> walk b player dy dx (row + dy) (column + dx) [])
        = ray_captures b row column player d"
      using set_walk_ray [OF nz] d by simp
  qed
  finally show ?thesis .
qed

text \<open>
  C5.  The cells returned by \<open>would_flip\<close> are the union, over the eight compass directions,
  of the captures of each ray: the run of other players' discs next to the target when a disc
  of \<open>player\<close> ends it, and nothing when an empty cell or the border ends it.
\<close>

theorem would_flip_is_union_of_rays:
  assumes "wf_board b"
  shows "set (would_flip b row column player) = captures_spec b row column player"
  by (simp add: set_would_flip captures_spec_def)

theorem would_flip_is_union_of_rays_witness:
  "wf_board initial_board \<and> captures_spec initial_board 2 4 0 = {(3, 4)}"
proof -
  have w: "wf_board initial_board" by code_simp
  have "would_flip initial_board 2 4 0 = [(3, 4)]" by code_simp
  with would_flip_is_union_of_rays [OF w, of 2 4 0] w show ?thesis by simp
qed

section \<open>Legality\<close>

lemma not_outside_iff:
  "\<not> (y < 0 \<or> y \<ge> rows b \<or> x < 0 \<or> x \<ge> columns b) \<longleftrightarrow> in_bounds b y x"
  by (auto simp: in_bounds_def)

lemma is_adjacent_iff: "is_adjacent b row column \<longleftrightarrow> adjacent_spec b row column"
  unfolding is_adjacent_def adjacent_spec_def compass_def not_outside_iff
  by simp

lemma validate_iff:
  "fst (validate_placing b row column player) \<longleftrightarrow> is_legal_spec b row column player"
  by (simp add: validate_placing_def is_legal_spec_def is_adjacent_iff in_bounds_def not_le not_less)

lemma validate_in_bounds:
  "fst (validate_placing b row column player) \<Longrightarrow> in_bounds b row column"
  by (simp add: validate_iff is_legal_spec_def)

text \<open>
  C6.  \<open>validate_placing\<close> accepts a move exactly when the target is on the grid, empty,
  next to an occupied cell and \<open>would_flip\<close> is non-empty.  So a move that meets the first
  three conditions and captures nothing is rejected, and a target whose neighbours on the
  grid are all empty is rejected for every player.
\<close>

theorem validate_placing_iff_legal:
  assumes "wf_board b"
  shows "(fst (validate_placing b row column player) \<longleftrightarrow> is_legal_spec b row column player)
    \<and> (in_bounds b row column \<and> cell b row column = EMPTY \<and> adjacent_spec b row column
         \<and> would_flip b row column player = [] \<longrightarrow> \<not> fst (validate_placing b row column player))
    \<and> ((\<forall>(dy, dx) \<in> set compass.
            in_bounds b (row + dy) (column + dx) \<longrightarrow> cell b (row + dy) (column + dx) = EMPTY)
         \<longrightarrow> (\<forall>any_player. \<not> fst (validate_placing b row column any_player)))"
  by (auto simp: validate_iff is_legal_spec_def adjacent_spec_def)

theorem validate_placing_iff_legal_witness:
  "wf_board initial_board
   \<and> fst (validate_placing initial_board 2 4 0) \<and> is_legal_spec initial_board 2 4 0
   \<and> \<not> fst (validate_placing initial_board 2 3 0) \<and> \<not> is_legal_spec initial_board 2 3 0
   \<and> \<not> fst (validate_placing initial_board 0 0 0) \<and> \<not> is_legal_spec initial_board 0 0 0"
proof -
  have w: "wf_board initial_board" by code_simp
  have "fst (validate_placing initial_board 2 4 0)"
    and "\<not> fst (validate_placing initial_board 2 3 0)"
    and "\<not> fst (validate_placing initial_board 0 0 0)"
    by code_simp+
  with validate_placing_iff_legal [OF w, of 2 4 0] validate_placing_iff_legal [OF w, of 2 3 0]
    validate_placing_iff_legal [OF w, of 0 0 0] w
  show ?thesis by simp
qed

section \<open>Scanning for moves\<close>

lemma fold_collect:
  "fold (\<lambda>x acc. if P x then acc @ [f x] else acc) xs acc = acc @ map f (filter P xs)"
  by (induction xs arbitrary: acc) simp_all

lemma fold_collect_rows:
  "fold (\<lambda>r acc. fold (\<lambda>c acc. if P r c then acc @ [(r, c)] else acc) cs acc) rs acc
     = acc @ filter (\<lambda>(r, c). P r c) (List.product rs cs)"
  by (induction rs arbitrary: acc) (simp_all add: fold_collect filter_map comp_def)

lemma valid_moves_scan:
  "valid_moves b player =
     filter (\<lambda>(row, column). fst (validate_placing b row column player))
       (List.product [0 .. rows b - 1] [0 .. columns b - 1])"
  unfolding valid_moves_def by (simp add: fold_collect_rows)

lemma set_valid_moves:
  "set (valid_moves b player) = {(row, column). fst (validate_placing b row column player)}"
  using validate_in_bounds [of b _ _ player]
  by (auto simp: valid_moves_scan in_bounds_def)

lemma row_major_product:
  "sorted_wrt (<) rs \<Longrightarrow> sorted_wrt (<) cs \<Longrightarrow> sorted_wrt row_major_less (List.product rs cs)"
proof (induction rs)
  case Nil
  show ?case by simp
next
  case (Cons r rs)
  have "sorted_wrt row_major_less (map (Pair r) cs)"
    using Cons.prems(2) by (simp add: sorted_wrt_map row_major_less_def)
  moreover have "sorted_wrt row_major_less (List.product rs cs)"
    using Cons by simp
  moreover have "\<forall>p \<in> set (map (Pair r) cs). \<forall>q \<in> set (List.product rs cs). row_major_less p q"
    using Cons.prems(1) by (auto simp: row_major_less_def)
  ultimately show ?case by (simp add: sorted_wrt_append)
qed

lemma sorted_valid_moves: "sorted_wrt row_major_less (valid_moves b player)"
  unfolding valid_moves_scan
  by (intro sorted_wrt_filter row_major_product) simp_all

lemma has_valid_move_iff: "has_valid_move b player \<longleftrightarrow> valid_moves b player \<noteq> []"
  by (auto simp: has_valid_move_def valid_moves_scan list_ex_iff filter_empty_conv)

text \<open>
  C8.  \<open>valid_moves\<close> lists exactly the cells that \<open>validate_placing\<close> accepts, in strictly
  ascending row-major order, and \<open>has_valid_move\<close> holds exactly when that list is not empty.
\<close>

theorem valid_moves_row_major_scan:
  assumes "wf_board b"
  shows "set (valid_moves b player) = {(row, column). fst (validate_placing b row column player)}
    \<and> sorted_wrt row_major_less (valid_moves b player)
    \<and> (has_valid_move b player \<longleftrightarrow> valid_moves b player \<noteq> [])"
  by (simp add: set_valid_moves sorted_valid_moves has_valid_move_iff)

theorem valid_moves_row_major_scan_witness:
  "wf_board initial_board
   \<and> valid_moves initial_board 0 = [(2, 4), (4, 2), (4, 6), (6, 2), (6, 3), (6, 4), (6, 5), (6, 6)]
   \<and> {(row, column). fst (validate_placing initial_board row column 0)}
       = {(2, 4), (4, 2), (4, 6), (6, 2), (6, 3), (6, 4), (6, 5), (6, 6)}
   \<and> has_valid_move initial_board 0"
proof -
  have w: "wf_board initial_board" by code_simp
  have v: "valid_moves initial_board 0 = [(2, 4), (4, 2), (4, 6), (6, 2), (6, 3), (6, 4), (6, 5), (6, 6)]"
    by code_simp
  from valid_moves_row_major_scan [OF w, of 0] w v show ?thesis by simp
qed

section \<open>Placement outside the grid\<close>

lemma would_flip_in_bounds:
  assumes "(x, y) \<in> set (would_flip b row column player)"
  shows "in_bounds b x y"
proof -
  from assms obtain d where "(x, y) \<in> ray_captures b row column player d"
    by (auto simp: set_would_flip)
  then show ?thesis
    by (cases d) (auto simp: ray_captures_def flanked_def)
qed

lemma set_cell_in_range:
  assumes "0 \<le> x" "x < int (length g)" "0 \<le> y" "y < int (length (g ! nat x))"
  shows "set_cell g x y v = Some (g[nat x := (g ! nat x)[nat y := v]])"
  using assms by (simp add: set_cell_def py_index_def setitem_def)

lemma shape_update:
  assumes "\<forall>r \<in> set g. int (length r) = C" "i < length g"
  shows "\<forall>r \<in> set (g[i := (g ! i)[j := v]]). int (length r) = C"
proof
  fix r assume "r \<in> set (g[i := (g ! i)[j := v]])"
  then have "r = (g ! i)[j := v] \<or> r \<in> set g"
    using set_update_subset_insert [of g i "(g ! i)[j := v]"] by auto
  with assms show "int (length r) = C" by auto
qed

lemma assign_cells_in_range:
  assumes "\<forall>r \<in> set g. int (length r) = C"
    and "\<forall>(x, y) \<in> set cells. 0 \<le> x \<and> x < int (length g) \<and> 0 \<le> y \<and> y < C"
  shows "\<exists>g'. assign_cells g cells player = (g', None) \<and> length g' = length g
           \<and> (\<forall>r \<in> set g'. int (length r) = C)"
  using assms
proof (induction cells arbitrary: g)
  case Nil
  then show ?case by simp
next
  case (Cons xy cells)
  obtain x y where xy: "xy = (x, y)" by (cases xy)
  with Cons.prems(2) have x: "0 \<le> x" "x < int (length g)" and y: "0 \<le> y" "y < C"
    by auto
  from x have mem: "g ! nat x \<in> set g" by simp
  with Cons.prems(1) y have "y < int (length (g ! nat x))" by simp
  with x y have sc: "set_cell g x y player = Some (g[nat x := (g ! nat x)[nat y := player]])"
    by (simp add: set_cell_in_range)
  let ?g = "g[nat x := (g ! nat x)[nat y := player]]"
  have shape: "\<forall>r \<in> set ?g. int (length r) = C"
    using Cons.prems(1) x by (intro shape_update) simp_all
  moreover have "\<forall>(x, y) \<in> set cells. 0 \<le> x \<and> x < int (length ?g) \<and> 0 \<le> y \<and> y < C"
    using Cons.prems(2) by simp
  ultimately obtain g' where "assign_cells ?g cells player = (g', None)" "length g' = length ?g"
    "\<forall>r \<in> set g'. int (length r) = C"
    using Cons.IH by blast
  with xy sc show ?case by simp
qed

lemma flips_applied:
  assumes "wf_board b"
  shows "\<exists>g. assign_cells (board b) (would_flip b row column player) player = (g, None)
           \<and> length g = length (board b) \<and> (\<forall>r \<in> set g. int (length r) = columns b)"
proof (rule assign_cells_in_range)
  from assms show "\<forall>r \<in> set (board b). int (length r) = columns b"
    by (simp add: wf_board_def)
  from assms show "\<forall>(x, y) \<in> set (would_flip b row column player).
      0 \<le> x \<and> x < int (length (board b)) \<and> 0 \<le> y \<and> y < columns b"
    using would_flip_in_bounds [of _ _ b row column player]
    by (auto simp: wf_board_def in_bounds_def)
qed

text \<open>
  C10.  A placement at row \<open>-1\<close> and a column of the grid is judged out of bounds by
  \<open>validate_placing\<close>, and \<open>place\<close> still returns normally: the index \<open>-1\<close> wraps to the last
  row, whose cell in that column is owned by \<open>player\<close> afterwards.
\<close>

theorem place_row_minus_one_wraps:
  assumes "wf_board b" "0 < rows b" "0 \<le> column" "column < columns b"
  shows "validate_placing b (- 1) column player = (False, ''Placement out of bounds.'')
    \<and> snd (place b (- 1) column player) = None
    \<and> cell (fst (place b (- 1) column player)) (rows b - 1) column = player"
proof -
  from flips_applied [OF assms(1)]
  obtain g where g: "assign_cells (board b) (would_flip b (- 1) column player) player = (g, None)"
    and len: "length g = length (board b)" and cols: "\<forall>r \<in> set g. int (length r) = columns b"
    by blast
  from assms(1,2) len have pos: "0 < length g" and rows: "rows b = int (length g)"
    by (auto simp: wf_board_def)
  let ?i = "length g - 1"
  from pos have "g ! ?i \<in> set g" by simp
  with cols have rowlen: "int (length (g ! ?i)) = columns b" by blast
  have idx: "py_index (length g) (- 1) = Some ?i"
    using pos by (cases g) (simp_all add: py_index_def)
  have sc: "set_cell g (- 1) column player = Some (g[?i := (g ! ?i)[nat column := player]])"
  proof -
    have "setitem (g ! ?i) column player = Some ((g ! ?i)[nat column := player])"
      using assms(3,4) rowlen by (simp add: setitem_def py_index_def)
    then show ?thesis by (simp add: set_cell_def idx)
  qed
  have pl: "place b (- 1) column player = (b\<lparr>board := g[?i := (g ! ?i)[nat column := player]]\<rparr>, None)"
    by (simp add: place_def Let_def g sc)
  have "nat (rows b - 1) = ?i" using rows pos by simp
  moreover have "nat column < length (g ! ?i)" using assms(3,4) rowlen by simp
  ultimately have "cell (fst (place b (- 1) column player)) (rows b - 1) column = player"
    using pos by (simp add: pl cell_def)
  then show ?thesis by (simp add: pl validate_placing_def)
qed

theorem place_row_minus_one_wraps_witness:
  "wf_board initial_board \<and> 0 < rows initial_board \<and> (0::int) \<le> 3 \<and> 3 < columns initial_board
   \<and> cell initial_board 8 3 = EMPTY
   \<and> validate_placing initial_board (- 1) 3 0 = (False, ''Placement out of bounds.'')
   \<and> snd (place initial_board (- 1) 3 0) = None
   \<and> cell (fst (place initial_board (- 1) 3 0)) 8 3 = 0"
proof -
  have w: "wf_board initial_board" by code_simp
  have r: "rows initial_board = 9" and c: "columns initial_board = 9"
    and e: "cell initial_board 8 3 = EMPTY"
    by code_simp+
  from r c have h: "0 < rows initial_board" "(0::int) \<le> 3" "3 < columns initial_board" by simp_all
  from place_row_minus_one_wraps [OF w h, of 0] w h e r show ?thesis by simp
qed

section \<open>The recursion of the search\<close>

lemma explore_returns:
  assumes "\<And>b' cp tp. \<exists>r. minimax fuel b' (depth - 1) mp cp np tp h = Some r"
  shows "\<exists>r. explore fuel b depth mp cp nxt np h moves me = Some r"
proof (induction moves arbitrary: b me)
  case Nil
  show ?case by simp
next
  case (Cons m moves)
  obtain mr mc where m: "m = (mr, mc)" by (cases m)
  obtain b1 e1 where p: "place b mr mc cp = (b1, e1)" by (cases "place b mr mc cp")
  show ?case
  proof (cases e1)
    case (Some e)
    with m p show ?thesis by simp
  next
    case None
    from assms obtain r where r: "minimax fuel b1 (depth - 1) mp nxt np 0 h = Some r" by blast
    show ?thesis
    proof (cases r)
      case (Inl e)
      with m p None r show ?thesis by simp
    next
      case (Inr vb)
      obtain ev b2 where vb: "vb = (ev, b2)" by (cases vb)
      show ?thesis
      proof (cases "set_cell (board b2) mr mc EMPTY")
        case None': None
        with m p None r Inr vb show ?thesis by simp
      next
        case (Some g)
        show ?thesis
        proof (cases "update_eval (cp = mp) me ev")
          case (Inl e)
          with m p None r Inr vb Some show ?thesis by simp
        next
          case Inr': (Inr me')
          from Cons.IH obtain r' where "explore fuel (b2\<lparr>board := g\<rparr>) depth mp cp nxt np h moves me' = Some r'"
            by blast
          with m p None r Inr vb Some Inr' show ?thesis by simp
        qed
      qed
    qed
  qed
qed

lemma minimax_returns_aux:
  "0 \<le> depth \<Longrightarrow> nat depth < fuel \<Longrightarrow> \<exists>r. minimax fuel b depth mp cp np tp h = Some r"
proof (induction fuel arbitrary: b depth cp tp)
  case 0
  then show ?case by simp
next
  case (Suc fuel)
  show ?case
  proof (cases "depth = 0 \<or> tp = np")
    case True
    then show ?thesis by simp
  next
    case False
    with Suc.prems have d: "0 \<le> depth - 1" "nat (depth - 1) < fuel" by auto
    have rec: "\<And>b' cp' tp'. \<exists>r. minimax fuel b' (depth - 1) mp cp' np tp' h = Some r"
      using Suc.IH [OF d] .
    show ?thesis
    proof (cases "np = 0")
      case True
      with False show ?thesis by (simp add: Let_def)
    next
      case np: False
      show ?thesis
      proof (cases "valid_moves b cp = []")
        case True
        from rec obtain r where "minimax fuel b (depth - 1) mp ((cp + 1) mod np) np (tp + 1) h = Some r"
          by blast
        with False np True show ?thesis
          by (cases r) (auto simp: Let_def split: prod.splits)
      next
        case moves: False
        from explore_returns [OF rec]
        obtain r where "explore fuel b depth mp cp ((cp + 1) mod np) np h (valid_moves b cp) None = Some r"
          by blast
        with False np moves show ?thesis by (simp add: Let_def)
      qed
    qed
  qed
qed

subsection \<open>More fuel never changes an outcome\<close>

lemma explore_mono:
  assumes "\<And>b d cp tp r. minimax n b d mp cp np tp h = Some r \<Longrightarrow> minimax (Suc n) b d mp cp np tp h = Some r"
  shows "explore n b depth mp cp nxt np h moves me = Some r \<Longrightarrow>
         explore (Suc n) b depth mp cp nxt np h moves me = Some r"
proof (induction moves arbitrary: b me)
  case Nil
  then show ?case by simp
next
  case (Cons m moves)
  obtain mr mc where m: "m = (mr, mc)" by (cases m)
  obtain b1 e1 where p: "place b mr mc cp = (b1, e1)" by (cases "place b mr mc cp")
  show ?case
  proof (cases e1)
    case (Some e)
    with m p Cons.prems show ?thesis by (auto simp del: minimax.simps)
  next
    case None
    show ?thesis
    proof (cases "minimax n b1 (depth - 1) mp nxt np 0 h")
      case None': None
      with m p None Cons.prems show ?thesis by (auto simp del: minimax.simps)
    next
      case (Some res)
      note up = assms [OF Some]
      show ?thesis
      proof (cases res)
        case (Inl e)
        with m p None Some up Cons.prems show ?thesis by (auto simp del: minimax.simps)
      next
        case (Inr vb)
        obtain ev b2 where vb: "vb = (ev, b2)" by (cases vb)
        show ?thesis
        proof (cases "set_cell (board b2) mr mc EMPTY")
          case None'': None
          with m p None Some up Inr vb Cons.prems show ?thesis by (auto simp del: minimax.simps)
        next
          case g: (Some g)
          show ?thesis
          proof (cases "update_eval (cp = mp) me ev")
            case (Inl e)
            with m p None Some up Inr vb g Cons.prems show ?thesis by (auto simp del: minimax.simps)
          next
            case Inr': (Inr me')
            with m p None Some Inr vb g Cons.prems
            have "explore n (b2\<lparr>board := g\<rparr>) depth mp cp nxt np h moves me' = Some r" by simp
            then have "explore (Suc n) (b2\<lparr>board := g\<rparr>) depth mp cp nxt np h moves me' = Some r"
              by (rule Cons.IH)
            with m p None up Inr vb g Inr' show ?thesis by (auto simp del: minimax.simps)
          qed
        qed
      qed
    qed
  qed
qed

lemma minimax_mono:
  "minimax n b depth mp cp np tp h = Some r \<Longrightarrow> minimax (Suc n) b depth mp cp np tp h = Some r"
proof (induction n arbitrary: b depth cp tp r)
  case 0
  then show ?case by simp
next
  case (Suc n)
  show ?case
  proof (cases "depth = 0 \<or> tp = np")
    case True
    with Suc.prems show ?thesis by simp
  next
    case False
    show ?thesis
    proof (cases "np = 0")
      case True
      with False Suc.prems show ?thesis by (simp add: Let_def)
    next
      case np: False
      show ?thesis
      proof (cases "valid_moves b cp = []")
        case True
        show ?thesis
        proof (cases "minimax n b (depth - 1) mp ((cp + 1) mod np) np (tp + 1) h")
          case None
          with False np True Suc.prems show ?thesis by (simp add: Let_def)
        next
          case (Some res)
          from Suc.IH [OF Some] Some False np True Suc.prems show ?thesis
            by (simp add: Let_def)
        qed
      next
        case moves: False
        with False np Suc.prems
        have "explore n b depth mp cp ((cp + 1) mod np) np h (valid_moves b cp) None = Some r"
          by (simp add: Let_def)
        then have "explore (Suc n) b depth mp cp ((cp + 1) mod np) np h (valid_moves b cp) None = Some r"
          by (rule explore_mono [rotated]) (rule Suc.IH)
        with False np moves show ?thesis by (simp add: Let_def)
      qed
    qed
  qed
qed

lemma minimax_more_fuel:
  "minimax n b depth mp cp np tp h = Some r \<Longrightarrow> n \<le> m \<Longrightarrow> minimax m b depth mp cp np tp h = Some r"
proof (induction m)
  case 0
  then show ?case by (simp del: minimax.simps)
next
  case (Suc m)
  show ?case
  proof (cases "n = Suc m")
    case True
    with Suc.prems show ?thesis by (simp del: minimax.simps)
  next
    case False
    with Suc.prems have "n \<le> m" by simp
    with Suc have "minimax m b depth mp cp np tp h = Some r" by blast
    then show ?thesis by (rule minimax_mono)
  qed
qed

subsection \<open>On a well-formed board the search returns a number\<close>

lemma place_in_bounds:
  assumes "wf_board b" "in_bounds b row column"
  shows "\<exists>b'. place b row column player = (b', None) \<and> wf_board b'
            \<and> rows b' = rows b \<and> columns b' = columns b"
proof -
  from flips_applied [OF assms(1)]
  obtain g where g: "assign_cells (board b) (would_flip b row column player) player = (g, None)"
    and len: "length g = length (board b)" and cols: "\<forall>r \<in> set g. int (length r) = columns b"
    by blast
  from assms len have x: "0 \<le> row" "row < int (length g)" and y: "0 \<le> column" "column < columns b"
    by (simp_all add: wf_board_def in_bounds_def)
  from x have "g ! nat row \<in> set g" by simp
  with cols y have "column < int (length (g ! nat row))" by simp
  with x y have sc: "set_cell g row column player = Some (g[nat row := (g ! nat row)[nat column := player]])"
    by (simp add: set_cell_in_range)
  let ?g = "g[nat row := (g ! nat row)[nat column := player]]"
  have "\<forall>r \<in> set ?g. int (length r) = columns b"
    using cols x by (intro shape_update) simp_all
  with assms(1) len have "wf_board (b\<lparr>board := ?g\<rparr>)"
    by (auto simp: wf_board_def)
  moreover have "place b row column player = (b\<lparr>board := ?g\<rparr>, None)"
    by (simp add: place_def Let_def g sc)
  ultimately show ?thesis by simp
qed

lemma undo_in_bounds:
  assumes "wf_board b" "in_bounds b row column"
  shows "\<exists>g. set_cell (board b) row column v = Some g \<and> wf_board (b\<lparr>board := g\<rparr>)"
proof -
  let ?g = "board b"
  from assms have x: "0 \<le> row" "row < int (length ?g)" and y: "0 \<le> column" "column < columns b"
    and cols: "\<forall>r \<in> set ?g. int (length r) = columns b"
    by (auto simp: wf_board_def in_bounds_def)
  from x have "?g ! nat row \<in> set ?g" by simp
  with cols y have "column < int (length (?g ! nat row))" by simp
  with x y have sc: "set_cell ?g row column v = Some (?g[nat row := (?g ! nat row)[nat column := v]])"
    by (simp add: set_cell_in_range)
  have "\<forall>r \<in> set (?g[nat row := (?g ! nat row)[nat column := v]]). int (length r) = columns b"
    using cols x by (intro shape_update) simp_all
  with assms(1) have "wf_board (b\<lparr>board := ?g[nat row := (?g ! nat row)[nat column := v]]\<rparr>)"
    by (auto simp: wf_board_def)
  with sc show ?thesis by simp
qed

lemma explore_value:
  assumes rec: "\<And>b' cp tp. wf_board b' \<Longrightarrow> rows b' = R \<Longrightarrow> columns b' = C \<Longrightarrow>
      \<exists>v b''. minimax fuel b' (depth - 1) mp cp np tp h = Some (Inr (Some v, b''))
             \<and> wf_board b'' \<and> rows b'' = R \<and> columns b'' = C"
  shows "wf_board b \<Longrightarrow> rows b = R \<Longrightarrow> columns b = C \<Longrightarrow>
     \<forall>(r, c) \<in> set moves. 0 \<le> r \<and> r < R \<and> 0 \<le> c \<and> c < C \<Longrightarrow>
     moves \<noteq> [] \<or> me \<noteq> None \<Longrightarrow>
     \<exists>v b'. explore fuel b depth mp cp nxt np h moves me = Some (Inr (Some v, b'))
           \<and> wf_board b' \<and> rows b' = R \<and> columns b' = C"
proof (induction moves arbitrary: b me)
  case Nil
  then show ?case by auto
next
  case (Cons m moves)
  obtain mr mc where m: "m = (mr, mc)" by (cases m)
  with Cons.prems have inb: "in_bounds b mr mc" by (simp add: in_bounds_def)
  from place_in_bounds [OF Cons.prems(1) inb]
  obtain b1 where p: "place b mr mc cp = (b1, None)" and b1: "wf_board b1" "rows b1 = R" "columns b1 = C"
    using Cons.prems(2,3) by auto
  from rec [OF b1]
  obtain ev b2 where r: "minimax fuel b1 (depth - 1) mp nxt np 0 h = Some (Inr (Some ev, b2))"
    and b2: "wf_board b2" "rows b2 = R" "columns b2 = C" by blast
  from inb b2 Cons.prems(2,3) have "in_bounds b2 mr mc" by (simp add: in_bounds_def)
  from undo_in_bounds [OF b2(1) this]
  obtain g where g: "set_cell (board b2) mr mc EMPTY = Some g" and wg: "wf_board (b2\<lparr>board := g\<rparr>)"
    by blast
  obtain v where u: "update_eval (cp = mp) me (Some ev) = Inr (Some v)"
    by (cases me) (simp_all add: update_eval_def)
  have "\<exists>v' b'. explore fuel (b2\<lparr>board := g\<rparr>) depth mp cp nxt np h moves (Some v) = Some (Inr (Some v', b'))
           \<and> wf_board b' \<and> rows b' = R \<and> columns b' = C"
    using wg b2 Cons.prems(4) by (intro Cons.IH) simp_all
  with m p r g u show ?case by (simp del: minimax.simps)
qed

lemma valid_moves_in_range:
  "\<forall>(r, c) \<in> set (valid_moves b player). 0 \<le> r \<and> r < rows b \<and> 0 \<le> c \<and> c < columns b"
  using validate_in_bounds [of b _ _ player]
  by (auto simp: set_valid_moves in_bounds_def)

lemma minimax_value:
  "wf_board b \<Longrightarrow> np \<noteq> 0 \<Longrightarrow> 0 \<le> depth \<Longrightarrow> nat depth < fuel \<Longrightarrow>
   \<exists>v b'. minimax fuel b depth mp cp np tp h = Some (Inr (Some v, b'))
         \<and> wf_board b' \<and> rows b' = rows b \<and> columns b' = columns b"
proof (induction fuel arbitrary: b depth cp tp)
  case 0
  then show ?case by simp
next
  case (Suc fuel)
  show ?case
  proof (cases "depth = 0 \<or> tp = np")
    case True
    with Suc.prems(1) show ?thesis by simp
  next
    case False
    with Suc.prems have d: "0 \<le> depth - 1" "nat (depth - 1) < fuel" by auto
    have rec: "\<exists>v b''. minimax fuel b' (depth - 1) mp cp' np tp' h = Some (Inr (Some v, b''))
             \<and> wf_board b'' \<and> rows b'' = rows b \<and> columns b'' = columns b"
      if "wf_board b'" "rows b' = rows b" "columns b' = columns b" for b' cp' tp'
      using Suc.IH [OF that(1) Suc.prems(2) d, of cp' tp'] that by simp
    show ?thesis
    proof (cases "valid_moves b cp = []")
      case True
      from rec [OF Suc.prems(1) refl refl]
      obtain v b' where "minimax fuel b (depth - 1) mp ((cp + 1) mod np) np (tp + 1) h = Some (Inr (Some v, b'))"
        by blast
      with False Suc.prems(1,2) True show ?thesis by (simp add: Let_def)
    next
      case moves: False
      have "\<exists>v b'. explore fuel b depth mp cp ((cp + 1) mod np) np h (valid_moves b cp) None
              = Some (Inr (Some v, b')) \<and> wf_board b' \<and> rows b' = rows b \<and> columns b' = columns b"
        using Suc.prems(1) moves valid_moves_in_range [of b cp]
        by (intro explore_value rec) simp_all
      with False Suc.prems(2) moves show ?thesis by (simp add: Let_def)
    qed
  qed
qed

text \<open>
  C9.  For a non-negative depth the search returns: both recursive calls pass \<open>depth - 1\<close> and
  depth 0 is a base case, so the nesting of \<open>minimax\<close> calls never exceeds \<open>depth + 1\<close>, and
  every bound above \<open>depth\<close> yields the same outcome.  On a well-formed board with a non-zero
  player count that outcome is a number, not an exception.
\<close>

theorem minimax_terminates:
  assumes "0 \<le> depth"
  shows "\<exists>r. (\<forall>fuel. nat depth < fuel \<longrightarrow>
                 minimax fuel b depth maximizing_player current_player num_players turns_passed
                   heuristic = Some r)
           \<and> (wf_board b \<and> num_players \<noteq> 0 \<longrightarrow> (\<exists>v b'. r = Inr (Some v, b')))"
proof -
  have lt: "nat depth < Suc (nat depth)" by simp
  from minimax_returns_aux [OF assms lt]
  obtain r where r: "minimax (Suc (nat depth)) b depth maximizing_player current_player
      num_players turns_passed heuristic = Some r"
    by blast
  have "minimax fuel b depth maximizing_player current_player num_players turns_passed heuristic
      = Some r" if "nat depth < fuel" for fuel
  proof -
    from that have "Suc (nat depth) \<le> fuel" by simp
    with r show ?thesis by (rule minimax_more_fuel)
  qed
  moreover have "\<exists>v b'. r = Inr (Some v, b')" if "wf_board b" "num_players \<noteq> 0"
  proof -
    from minimax_value [OF that assms lt]
    obtain v b' where "minimax (Suc (nat depth)) b depth maximizing_player current_player
        num_players turns_passed heuristic = Some (Inr (Some v, b'))"
      by blast
    with r have "Some r = Some (Inr (Some v, b'))" by (simp only:)
    then show ?thesis by simp
  qed
  ultimately show ?thesis by blast
qed

theorem minimax_terminates_witness:
  "(0::int) \<le> 1 \<and> wf_board initial_board \<and> (3::int) \<noteq> 0
   \<and> (\<exists>r. minimax 2 initial_board 1 0 0 3 0 disc_count = Some r
          \<and> minimax 5 initial_board 1 0 0 3 0 disc_count = Some r
          \<and> (\<exists>v b'. r = Inr (Some v, b')))"
proof -
  have d: "(0::int) \<le> 1" by simp
  have w: "wf_board initial_board" by code_simp
  from minimax_terminates [OF d, of initial_board 0 0 3 0 disc_count]
  obtain r where "\<forall>fuel. nat 1 < fuel \<longrightarrow> minimax fuel initial_board 1 0 0 3 0 disc_count = Some r"
    and "wf_board initial_board \<and> (3::int) \<noteq> 0 \<longrightarrow> (\<exists>v b'. r = Inr (Some v, b'))"
    by blast
  then have "minimax 2 initial_board 1 0 0 3 0 disc_count = Some r"
    and "minimax 5 initial_board 1 0 0 3 0 disc_count = Some r"
    and "\<exists>v b'. r = Inr (Some v, b')"
    using w by simp_all
  with d w show ?thesis by simp
qed

subsection \<open>Passing\<close>

lemma rotate_mod:
  "((cur + 1) mod np + int j) mod np = (cur + int (Suc j)) mod (np::int)"
proof -
  have "((cur + 1) mod np + int j) mod np = (cur + 1 + int j) mod np"
    by (rule mod_add_left_eq)
  also have "cur + 1 + int j = cur + int (Suc j)" by simp
  finally show ?thesis .
qed

lemma pass_chain:
  "np \<noteq> 0 \<Longrightarrow> valid_moves b cur = [] \<Longrightarrow>
   \<forall>j. 1 \<le> j \<and> j \<le> k \<longrightarrow> valid_moves b ((cur + int j) mod np) = [] \<Longrightarrow>
   \<forall>j\<le>k. depth \<noteq> int j \<and> passed + int j \<noteq> np \<Longrightarrow>
   depth = int (Suc k) \<or> passed + int (Suc k) = np \<Longrightarrow>
   minimax (Suc (Suc k + fuel)) b depth mp cur np passed h
     = Some (Inr (Some (h b ((cur + int (Suc k)) mod np)), b))"
proof (induction k arbitrary: cur depth passed)
  case 0
  then have nb: "\<not> (depth = 0 \<or> passed = np)" and base: "depth - 1 = 0 \<or> passed + 1 = np"
    by auto
  have "minimax (Suc fuel) b (depth - 1) mp ((cur + 1) mod np) np (passed + 1) h
      = Some (Inr (Some (h b ((cur + 1) mod np)), b))"
    using base by simp
  with nb "0.prems"(1,2) show ?case
    by (simp add: Let_def del: minimax.simps(2)) (simp add: Let_def)
next
  case (Suc k)
  let ?next = "(cur + 1) mod np"
  from Suc.prems(4) have nb: "\<not> (depth = 0 \<or> passed = np)" by force
  have "1 \<le> (1::nat) \<and> 1 \<le> Suc k" by simp
  with Suc.prems(3) have "valid_moves b ((cur + int 1) mod np) = []" by blast
  then have v: "valid_moves b ?next = []" by simp
  have vs: "\<forall>j. 1 \<le> j \<and> j \<le> k \<longrightarrow> valid_moves b ((?next + int j) mod np) = []"
  proof (intro allI impI)
    fix j assume "1 \<le> j \<and> j \<le> k"
    then have "1 \<le> Suc j \<and> Suc j \<le> Suc k" by simp
    with Suc.prems(3) have "valid_moves b ((cur + int (Suc j)) mod np) = []"
      by blast
    moreover have "(?next + int j) mod np = (cur + int (Suc j)) mod np"
      by (rule rotate_mod)
    ultimately show "valid_moves b ((?next + int j) mod np) = []" by simp
  qed
  have nbs: "\<forall>j\<le>k. depth - 1 \<noteq> int j \<and> passed + 1 + int j \<noteq> np"
  proof (intro allI impI)
    fix j assume "j \<le> k"
    then have "Suc j \<le> Suc k" by simp
    with Suc.prems(4) have "depth \<noteq> int (Suc j) \<and> passed + int (Suc j) \<noteq> np"
      by blast
    then show "depth - 1 \<noteq> int j \<and> passed + 1 + int j \<noteq> np" by (simp add: algebra_simps)
  qed
  have fin: "depth - 1 = int (Suc k) \<or> passed + 1 + int (Suc k) = np"
    using Suc.prems(5) by (simp add: algebra_simps)
  have "minimax (Suc (Suc k + fuel)) b (depth - 1) mp ?next np (passed + 1) h
      = Some (Inr (Some (h b ((?next + int (Suc k)) mod np)), b))"
    by (rule Suc.IH [OF Suc.prems(1) v vs nbs fin])
  moreover have "(?next + int (Suc k)) mod np = (cur + int (Suc (Suc k))) mod np"
    by (rule rotate_mod)
  ultimately have rec: "minimax (Suc (Suc k + fuel)) b (depth - 1) mp ?next np (passed + 1) h
      = Some (Inr (Some (h b ((cur + int (Suc (Suc k))) mod np)), b))"
    by simp
  have "minimax (Suc (Suc (Suc k + fuel))) b depth mp cur np passed h
      = (case minimax (Suc (Suc k + fuel)) b (depth - 1) mp ?next np (passed + 1) h of
           None \<Rightarrow> None | Some (Inl e) \<Rightarrow> Some (Inl e) | Some (Inr (v, copy)) \<Rightarrow> Some (Inr (v, b)))"
    using nb Suc.prems(1,2) by (subst minimax.simps(2)) (simp add: Let_def del: minimax.simps)
  with rec show ?case by (simp del: minimax.simps)
qed

lemma pass_then_explore:
  assumes "depth \<noteq> 0" "passed \<noteq> np" "np \<noteq> 0" "valid_moves b cur = []"
    and "depth \<noteq> 1" "passed + 1 \<noteq> np" "valid_moves b ((cur + 1) mod np) \<noteq> []"
  shows "minimax (Suc (Suc fuel)) b depth mp cur np passed h
    = on_copy b (explore fuel b (depth - 1) mp ((cur + 1) mod np) (((cur + 1) mod np + 1) mod np) np h
        (valid_moves b ((cur + 1) mod np)) None)"
proof -
  have "minimax (Suc fuel) b (depth - 1) mp ((cur + 1) mod np) np (passed + 1) h
      = explore fuel b (depth - 1) mp ((cur + 1) mod np) (((cur + 1) mod np + 1) mod np) np h
        (valid_moves b ((cur + 1) mod np)) None"
    using assms by (simp add: Let_def)
  moreover have "minimax (Suc (Suc fuel)) b depth mp cur np passed h
      = on_copy b (minimax (Suc fuel) b (depth - 1) mp ((cur + 1) mod np) np (passed + 1) h)"
    using assms(1-4) by (subst minimax.simps(2)) (simp add: Let_def on_copy_def del: minimax.simps)
  ultimately show ?thesis by (simp del: minimax.simps)
qed

text \<open>
  C7.  When the player to move has no valid move and neither base case applies, the search
  does not stop.  Its outcome is the outcome of the call with \<open>depth - 1\<close>, the next player in
  rotation and one more pass, run on a copy, and the board it was given is returned untouched.
  So after \<open>k + 1\<close> passes in a row that end at a base case (the depth is used up, or the pass
  counter reaches the player count) the value is the heuristic of the untouched board for the
  player \<open>k + 1\<close> places on in the rotation; and when the next player can move and no base
  case applies, the value is that of the loop over the next player's moves at \<open>depth - 1\<close>.
\<close>

theorem minimax_pass_recurses:
  assumes "wf_board b" "0 < depth" "turns_passed \<noteq> num_players" "num_players \<noteq> 0"
    and "valid_moves b current_player = []"
  shows "minimax (Suc fuel) b depth maximizing_player current_player num_players turns_passed heuristic
      = (case minimax fuel b (depth - 1) maximizing_player ((current_player + 1) mod num_players)
                num_players (turns_passed + 1) heuristic of
           None \<Rightarrow> None
         | Some (Inl e) \<Rightarrow> Some (Inl e)
         | Some (Inr (v, copy)) \<Rightarrow> Some (Inr (v, b)))
    \<and> (\<forall>k. (\<forall>j. 1 \<le> j \<and> j \<le> k \<longrightarrow>
                  valid_moves b ((current_player + int j) mod num_players) = []
                  \<and> depth \<noteq> int j \<and> turns_passed + int j \<noteq> num_players)
            \<and> (depth = int (Suc k) \<or> turns_passed + int (Suc k) = num_players)
          \<longrightarrow> minimax (Suc (Suc k + fuel)) b depth maximizing_player current_player num_players
                turns_passed heuristic
              = Some (Inr (Some (heuristic b ((current_player + int (Suc k)) mod num_players)), b)))
    \<and> (depth \<noteq> 1 \<and> turns_passed + 1 \<noteq> num_players
         \<and> valid_moves b ((current_player + 1) mod num_players) \<noteq> []
          \<longrightarrow> minimax (Suc (Suc fuel)) b depth maximizing_player current_player num_players
                turns_passed heuristic
              = on_copy b (explore fuel b (depth - 1) maximizing_player
                  ((current_player + 1) mod num_players)
                  (((current_player + 1) mod num_players + 1) mod num_players)
                  num_players heuristic
                  (valid_moves b ((current_player + 1) mod num_players)) None))"
proof (intro conjI allI impI)
  show "minimax (Suc fuel) b depth maximizing_player current_player num_players turns_passed heuristic
      = (case minimax fuel b (depth - 1) maximizing_player ((current_player + 1) mod num_players)
                num_players (turns_passed + 1) heuristic of
           None \<Rightarrow> None
         | Some (Inl e) \<Rightarrow> Some (Inl e)
         | Some (Inr (v, copy)) \<Rightarrow> Some (Inr (v, b)))"
    using assms by (simp add: Let_def)
next
  fix k
  assume a: "(\<forall>j. 1 \<le> j \<and> j \<le> k \<longrightarrow>
                  valid_moves b ((current_player + int j) mod num_players) = []
                  \<and> depth \<noteq> int j \<and> turns_passed + int j \<noteq> num_players)
            \<and> (depth = int (Suc k) \<or> turns_passed + int (Suc k) = num_players)"
  then have vs: "\<forall>j. 1 \<le> j \<and> j \<le> k \<longrightarrow> valid_moves b ((current_player + int j) mod num_players) = []"
    by blast
  have nb: "\<forall>j\<le>k. depth \<noteq> int j \<and> turns_passed + int j \<noteq> num_players"
  proof (intro allI impI)
    fix j assume "j \<le> k"
    show "depth \<noteq> int j \<and> turns_passed + int j \<noteq> num_players"
    proof (cases "j = 0")
      case True
      with assms(2,3) show ?thesis by simp
    next
      case False
      with \<open>j \<le> k\<close> have "1 \<le> j \<and> j \<le> k" by simp
      with a show ?thesis by blast
    qed
  qed
  from a have fin: "depth = int (Suc k) \<or> turns_passed + int (Suc k) = num_players" by blast
  show "minimax (Suc (Suc k + fuel)) b depth maximizing_player current_player num_players
                turns_passed heuristic
              = Some (Inr (Some (heuristic b ((current_player + int (Suc k)) mod num_players)), b))"
    by (rule pass_chain [OF assms(4,5) vs nb fin])
next
  assume "depth \<noteq> 1 \<and> turns_passed + 1 \<noteq> num_players
         \<and> valid_moves b ((current_player + 1) mod num_players) \<noteq> []"
  with assms show "minimax (Suc (Suc fuel)) b depth maximizing_player current_player num_players
                turns_passed heuristic
              = on_copy b (explore fuel b (depth - 1) maximizing_player
                  ((current_player + 1) mod num_players)
                  (((current_player + 1) mod num_players + 1) mod num_players)
                  num_players heuristic
                  (valid_moves b ((current_player + 1) mod num_players)) None)"
    by (intro pass_then_explore) simp_all
qed

theorem minimax_pass_recurses_witness:
  "wf_board pass_board \<and> valid_moves pass_board 0 = [] \<and> valid_moves pass_board 1 = [(4, 5)]
   \<and> disc_count pass_board 0 = 3 \<and> disc_count pass_board 1 = 1 \<and> disc_count pass_board 2 = 3
   \<and> minimax 2 pass_board 1 0 0 3 0 disc_count = Some (Inr (Some 1, pass_board))
   \<and> minimax 3 pass_board 2 0 0 3 0 disc_count = Some (Inr (Some 2, pass_board))
   \<and> wf_board stuck_board \<and> valid_moves stuck_board 0 = [] \<and> valid_moves stuck_board 1 = []
   \<and> valid_moves stuck_board 2 = []
   \<and> disc_count stuck_board 0 = 3 \<and> disc_count stuck_board 1 = 2 \<and> disc_count stuck_board 2 = 1
   \<and> minimax 3 stuck_board 2 0 0 3 0 disc_count = Some (Inr (Some 1, stuck_board))
   \<and> minimax 4 stuck_board 7 0 0 3 0 disc_count = Some (Inr (Some 3, stuck_board))"
proof -
  have w: "wf_board pass_board" and v0: "valid_moves pass_board 0 = []"
    and v1: "valid_moves pass_board 1 = [(4, 5)]"
    and c: "disc_count pass_board 0 = 3" "disc_count pass_board 1 = 1" "disc_count pass_board 2 = 3"
    by code_simp+
  have ws: "wf_board stuck_board" and s0: "valid_moves stuck_board 0 = []"
    and s1: "valid_moves stuck_board 1 = []" and s2: "valid_moves stuck_board 2 = []"
    and cs: "disc_count stuck_board 0 = 3" "disc_count stuck_board 1 = 2" "disc_count stuck_board 2 = 1"
    by code_simp+
  have e: "on_copy pass_board (explore 1 pass_board 1 0 1 2 3 disc_count [(4, 5)] None)
      = Some (Inr (Some 2, pass_board))"
    by code_simp
  note p1 = minimax_pass_recurses [where b = pass_board and depth = 1 and turns_passed = 0
      and num_players = 3 and current_player = 0 and fuel = 0 and maximizing_player = 0
      and heuristic = disc_count, OF w _ _ _ v0]
  have "minimax (Suc (Suc 0 + 0)) pass_board 1 0 0 3 0 disc_count
      = Some (Inr (Some (disc_count pass_board ((0 + int (Suc 0)) mod 3)), pass_board))"
    using p1 [THEN conjunct2, THEN conjunct1, THEN spec, of 0] by (simp del: minimax.simps)
  then have r1: "minimax 2 pass_board 1 0 0 3 0 disc_count = Some (Inr (Some 1, pass_board))"
    using c by (simp add: numeral_2_eq_2 del: minimax.simps)
  note p2 = minimax_pass_recurses [where b = pass_board and depth = 2 and turns_passed = 0
      and num_players = 3 and current_player = 0 and fuel = 1 and maximizing_player = 0
      and heuristic = disc_count, OF w _ _ _ v0]
  have "minimax (Suc (Suc 1)) pass_board 2 0 0 3 0 disc_count
      = on_copy pass_board (explore 1 pass_board (2 - 1) 0 ((0 + 1) mod 3) (((0 + 1) mod 3 + 1) mod 3)
          3 disc_count (valid_moves pass_board ((0 + 1) mod 3)) None)"
    using p2 [THEN conjunct2, THEN conjunct2] v1 by (simp del: minimax.simps explore.simps)
  then have r2: "minimax 3 pass_board 2 0 0 3 0 disc_count = Some (Inr (Some 2, pass_board))"
    using v1 e by (simp add: numeral_3_eq_3 del: minimax.simps explore.simps)
  note p3 = minimax_pass_recurses [where b = stuck_board and depth = 2 and turns_passed = 0
      and num_players = 3 and current_player = 0 and fuel = 0 and maximizing_player = 0
      and heuristic = disc_count, OF ws _ _ _ s0]
  have "\<forall>j. 1 \<le> j \<and> j \<le> (1::nat) \<longrightarrow> valid_moves stuck_board ((0 + int j) mod 3) = []
      \<and> (2::int) \<noteq> int j \<and> 0 + int j \<noteq> (3::int)"
  proof (intro allI impI)
    fix j :: nat assume "1 \<le> j \<and> j \<le> 1"
    then have "j = 1" by auto
    with s1 show "valid_moves stuck_board ((0 + int j) mod 3) = []
      \<and> (2::int) \<noteq> int j \<and> 0 + int j \<noteq> (3::int)" by auto
  qed
  then have "minimax (Suc (Suc 1 + 0)) stuck_board 2 0 0 3 0 disc_count
      = Some (Inr (Some (disc_count stuck_board ((0 + int (Suc 1)) mod 3)), stuck_board))"
    using p3 [THEN conjunct2, THEN conjunct1, THEN spec, of 1] by (simp del: minimax.simps)
  then have r3: "minimax 3 stuck_board 2 0 0 3 0 disc_count = Some (Inr (Some 1, stuck_board))"
    using cs by (simp add: numeral_3_eq_3 del: minimax.simps)
  note p4 = minimax_pass_recurses [where b = stuck_board and depth = 7 and turns_passed = 0
      and num_players = 3 and current_player = 0 and fuel = 0 and maximizing_player = 0
      and heuristic = disc_count, OF ws _ _ _ s0]
  have "\<forall>j. 1 \<le> j \<and> j \<le> (2::nat) \<longrightarrow> valid_moves stuck_board ((0 + int j) mod 3) = []
      \<and> (7::int) \<noteq> int j \<and> 0 + int j \<noteq> (3::int)"
  proof (intro allI impI)
    fix j :: nat assume "1 \<le> j \<and> j \<le> 2"
    then have "j = 1 \<or> j = 2" by auto
    with s1 s2 show "valid_moves stuck_board ((0 + int j) mod 3) = []
      \<and> (7::int) \<noteq> int j \<and> 0 + int j \<noteq> (3::int)" by auto
  qed
  then have "minimax (Suc (Suc 2 + 0)) stuck_board 7 0 0 3 0 disc_count
      = Some (Inr (Some (disc_count stuck_board ((0 + int (Suc 2)) mod 3)), stuck_board))"
    using p4 [THEN conjunct2, THEN conjunct1, THEN spec, of 2] by (simp del: minimax.simps)
  then have r4: "minimax 4 stuck_board 7 0 0 3 0 disc_count = Some (Inr (Some 3, stuck_board))"
    using cs by (simp add: eval_nat_numeral del: minimax.simps)
  from w v0 v1 c r1 r2 ws s0 s1 s2 cs r3 r4 show ?thesis by (simp del: minimax.simps)
qed

end
